theory Spec2Isabelle
  imports Main
begin

section \<open>Values and strings\<close>

text \<open>
  The scanner of \<^verbatim>\<open>Dolby_Atmos_scanner.py\<close> works on documents produced by
  \<^verbatim>\<open>json.load\<close>/\<^verbatim>\<open>json.loads\<close>: the cache file and the prober's
  standard output. Such a document is a dynamically typed value. The tuples the
  scanner builds for tracks and result rows are modelled as arrays: they are
  serialised as arrays, and iteration and unpacking treat both alike. Numbers are
  integers here; a float behaves like an integer in every operation the scanner
  applies (it has no \<^verbatim>\<open>get\<close> or \<^verbatim>\<open>lower\<close>, is neither iterable nor
  subscriptable and never equals a string). Strings are byte strings.
\<close>

datatype json =
    JNull
  | JBool bool
  | JNum int
  | JStr string
  | JArr "json list"
  | JObj "(string \<times> json) list"

datatype py_error = OSError | JSONDecodeError | AttributeError | TypeError | KeyError

text \<open>\<^verbatim>\<open>str.lower()\<close> on the ASCII letters; every other byte is kept.\<close>

definition lower_char :: "char \<Rightarrow> char" where
  "lower_char c =
     (case map_of (zip ''ABCDEFGHIJKLMNOPQRSTUVWXYZ'' ''abcdefghijklmnopqrstuvwxyz'') c of
        None \<Rightarrow> c
      | Some d \<Rightarrow> d)"

definition lower :: "string \<Rightarrow> string" where
  "lower s = map lower_char s"

text \<open>\<^verbatim>\<open>p in s\<close> for two strings: \<open>p\<close> occurs in \<open>s\<close> as a contiguous substring.\<close>

fun str_in :: "string \<Rightarrow> string \<Rightarrow> bool" where
  "str_in p [] = (p = [])"
| "str_in p (c # cs) = (take (length p) (c # cs) = p \<or> str_in p cs)"

section \<open>Dynamic operations of the host language\<close>

text \<open>\<^verbatim>\<open>key in obj\<close> for a string key.\<close>

fun py_contains :: "string \<Rightarrow> json \<Rightarrow> py_error + bool" where
  "py_contains key (JObj kvs) = Inr (map_of kvs key \<noteq> None)"
| "py_contains key (JArr xs) = Inr (JStr key \<in> set xs)"
| "py_contains key (JStr s) = Inr (str_in key s)"
| "py_contains key _ = Inl TypeError"

text \<open>\<^verbatim>\<open>obj[key]\<close> for a string key.\<close>

fun py_getitem :: "json \<Rightarrow> string \<Rightarrow> py_error + json" where
  "py_getitem (JObj kvs) key = (case map_of kvs key of None \<Rightarrow> Inl KeyError | Some v \<Rightarrow> Inr v)"
| "py_getitem _ key = Inl TypeError"

text \<open>
  A dictionary keeps insertion order: storing under an existing key replaces the
  value in place, storing under a new key appends.
\<close>

fun dict_store :: "(string \<times> json) list \<Rightarrow> string \<Rightarrow> json \<Rightarrow> (string \<times> json) list" where
  "dict_store [] key v = [(key, v)]"
| "dict_store ((k, x) # kvs) key v =
     (if k = key then (k, v) # kvs else (k, x) # dict_store kvs key v)"

text \<open>\<^verbatim>\<open>obj[key] = v\<close> for a string key.\<close>

fun py_setitem :: "json \<Rightarrow> string \<Rightarrow> json \<Rightarrow> py_error + json" where
  "py_setitem (JObj kvs) key v = Inr (JObj (dict_store kvs key v))"
| "py_setitem _ key v = Inl TypeError"

text \<open>\<^verbatim>\<open>obj.get(key, default)\<close>: only a dictionary has the method.\<close>

fun py_get :: "json \<Rightarrow> string \<Rightarrow> json \<Rightarrow> py_error + json" where
  "py_get (JObj kvs) key dflt = Inr (case map_of kvs key of None \<Rightarrow> dflt | Some v \<Rightarrow> v)"
| "py_get _ key dflt = Inl AttributeError"

text \<open>\<^verbatim>\<open>obj.lower()\<close>: only a string has the method.\<close>

fun py_lower :: "json \<Rightarrow> py_error + string" where
  "py_lower (JStr s) = Inr (lower s)"
| "py_lower _ = Inl AttributeError"

text \<open>
  The elements a \<^verbatim>\<open>for\<close> loop or a \<^verbatim>\<open>*\<close> unpacking draws from a value:
  the items of an array, the characters of a string, the keys of a dictionary.
\<close>

fun py_iter :: "json \<Rightarrow> py_error + json list" where
  "py_iter (JArr xs) = Inr xs"
| "py_iter (JStr s) = Inr (map (\<lambda>c. JStr [c]) s)"
| "py_iter (JObj kvs) = Inr (map (\<lambda>kv. JStr (fst kv)) kvs)"
| "py_iter _ = Inl TypeError"

section \<open>Classification of one audio stream\<close>

text \<open>
  The \<^verbatim>\<open>if\<close>/\<^verbatim>\<open>elif\<close> chain of \<^verbatim>\<open>scan_video\<close> on the lowered codec and
  profile; the result is the format label of the appended track, or \<open>None\<close> when no
  branch is taken.
\<close>

definition classify :: "string \<Rightarrow> string \<Rightarrow> string option" where
  "classify codec profile =
     (if str_in ''atmos'' profile \<or> (codec = ''truehd'' \<and> str_in ''atmos'' profile)
        then Some ''Dolby Atmos''
      else if codec \<in> {''eac3'', ''e-ac-3''} \<and> str_in ''joc'' profile
        then Some ''Dolby Atmos''
      else if codec = ''dts'' \<and> str_in ''x'' profile
        then Some ''DTS:X''
      else None)"

text \<open>
  The body of the loop over the streams: the three reads (each may raise), then the
  classification. The result is the list of tracks the iteration appends.
\<close>

definition scan_stream :: "json \<Rightarrow> py_error + json list" where
  "scan_stream s =
     (case py_get s ''codec_name'' (JStr '''') of Inl e \<Rightarrow> Inl e | Inr c \<Rightarrow>
      case py_lower c of Inl e \<Rightarrow> Inl e | Inr codec \<Rightarrow>
      case py_get s ''profile'' (JStr '''') of Inl e \<Rightarrow> Inl e | Inr p \<Rightarrow>
      case py_lower p of Inl e \<Rightarrow> Inl e | Inr profile \<Rightarrow>
      case py_get s ''tags'' (JObj []) of Inl e \<Rightarrow> Inl e | Inr tags \<Rightarrow>
      case py_get tags ''language'' (JStr ''unknown'') of Inl e \<Rightarrow> Inl e | Inr lang \<Rightarrow>
      (case classify codec profile of
         None \<Rightarrow> Inr []
       | Some label \<Rightarrow> Inr [JArr [JStr label, lang, JStr codec, JStr profile]]))"

fun scan_streams :: "json list \<Rightarrow> json list \<Rightarrow> py_error + json list" where
  "scan_streams [] tracks = Inr tracks"
| "scan_streams (s # ss) tracks =
     (case scan_stream s of Inl e \<Rightarrow> Inl e | Inr new \<Rightarrow> scan_streams ss (tracks @ new))"

section \<open>The environment and the effects\<close>

text \<open>
  What the scanner reads from outside: file metadata (\<open>None\<close> when
  \<^verbatim>\<open>os.stat\<close> raises), the prober's captured standard output for a path
  (\<open>None\<close> when \<^verbatim>\<open>subprocess.run\<close> raises, as with a missing executable),
  the JSON codec of the standard library (\<open>json_loads\<close> gives \<open>None\<close> where the
  parser raises), and the directory tree below a folder (\<open>None\<close> when the folder
  is not a directory). The modification time is kept as its decimal rendering.
\<close>

record stat_result =
  st_size :: nat
  st_mtime :: string

datatype entry = File string | Dir string "entry list"

record world =
  os_stat :: "string \<Rightarrow> stat_result option"
  subprocess_run :: "string \<Rightarrow> string option"
  json_loads :: "string \<Rightarrow> json option"
  json_dumps :: "json \<Rightarrow> string"
  scandir :: "string \<Rightarrow> entry list option"

text \<open>
  What the scanner does to the outside: the content of \<^verbatim>\<open>scan_cache.json\<close>
  (\<open>None\<close> while the file does not exist), and the calls it makes, in order:
  \<^verbatim>\<open>os.stat\<close>, the prober, and the progress callback.
\<close>

record state =
  cache_file :: "string option"
  stat_calls :: "string list"
  probe_calls :: "string list"
  progress_calls :: "(nat \<times> nat) list"

section \<open>Cache\<close>

text \<open>
  \<^verbatim>\<open>load_cache()\<close>: the empty dictionary when the file does not exist, else
  whatever the parser makes of the file's content; a parse error is not caught.
  A failure to open an existing file is outside the model.
\<close>

definition load_cache :: "world \<Rightarrow> state \<Rightarrow> py_error + json" where
  "load_cache w st =
     (case cache_file st of
        None \<Rightarrow> Inr (JObj [])
      | Some text \<Rightarrow>
          (case json_loads w text of None \<Rightarrow> Inl JSONDecodeError | Some v \<Rightarrow> Inr v))"

text \<open>
  \<^verbatim>\<open>save_cache(cache)\<close>: the file's content becomes the dump of the whole
  cache. A failure to open or write the file is outside the model.
\<close>

definition save_cache :: "world \<Rightarrow> json \<Rightarrow> state \<Rightarrow> state" where
  "save_cache w cache st = st\<lparr>cache_file := Some (json_dumps w cache)\<rparr>"

text \<open>
  \<^verbatim>\<open>file_signature(path)\<close>: the size in decimal, an underscore, the
  modification time.
\<close>

definition digit_char :: "nat \<Rightarrow> char" where
  "digit_char d = ''0123456789'' ! d"

fun str_nat :: "nat \<Rightarrow> string" where
  "str_nat n = (if n < 10 then [digit_char n] else str_nat (n div 10) @ [digit_char (n mod 10)])"

declare str_nat.simps [simp del]

definition file_signature :: "world \<Rightarrow> string \<Rightarrow> state \<Rightarrow> state \<times> (py_error + string)" where
  "file_signature w path st =
     (let st1 = st\<lparr>stat_calls := stat_calls st @ [path]\<rparr> in
      case os_stat w path of
        None \<Rightarrow> (st1, Inl OSError)
      | Some r \<Rightarrow> (st1, Inr (str_nat (st_size r) @ ''_'' @ st_mtime r)))"

section \<open>Audio scan\<close>

text \<open>The test \<^verbatim>\<open>key in cache and cache[key]["sig"] == sig\<close>.\<close>

definition cache_hit :: "json \<Rightarrow> string \<Rightarrow> string \<Rightarrow> py_error + bool" where
  "cache_hit cache key sig =
     (case py_contains key cache of
        Inl e \<Rightarrow> Inl e
      | Inr present \<Rightarrow>
          if \<not> present then Inr False
          else (case py_getitem cache key of Inl e \<Rightarrow> Inl e | Inr entry \<Rightarrow>
                case py_getitem entry ''sig'' of Inl e \<Rightarrow> Inl e | Inr v \<Rightarrow> Inr (v = JStr sig)))"

text \<open>
  The \<^verbatim>\<open>try\<close> block: run the prober, parse its standard output. \<open>None\<close> stands
  for any exception raised inside the block.
\<close>

definition probe :: "world \<Rightarrow> string \<Rightarrow> json option" where
  "probe w path = (case subprocess_run w path of None \<Rightarrow> None | Some out \<Rightarrow> json_loads w out)"

text \<open>
  \<^verbatim>\<open>scan_video(path, cache)\<close>. The dictionary is mutated in place in the source;
  here the updated cache is returned beside the tracks.
\<close>

definition scan_video ::
  "world \<Rightarrow> string \<Rightarrow> json \<Rightarrow> state \<Rightarrow> state \<times> (py_error + json \<times> json)" where
  "scan_video w path cache st =
     (case file_signature w path st of
        (st1, Inl e) \<Rightarrow> (st1, Inl e)
      | (st1, Inr sig) \<Rightarrow>
          (case cache_hit cache path sig of
             Inl e \<Rightarrow> (st1, Inl e)
           | Inr hit \<Rightarrow>
               if hit then
                 (case py_getitem cache path of Inl e \<Rightarrow> (st1, Inl e) | Inr entry \<Rightarrow>
                  case py_getitem entry ''tracks'' of Inl e \<Rightarrow> (st1, Inl e) | Inr tracks \<Rightarrow>
                  (st1, Inr (tracks, cache)))
               else
                 (let st2 = st1\<lparr>probe_calls := probe_calls st1 @ [path]\<rparr> in
                  case probe w path of
                    None \<Rightarrow> (st2, Inr (JArr [], cache))
                  | Some data \<Rightarrow>
                      (case py_get data ''streams'' (JArr []) of Inl e \<Rightarrow> (st2, Inl e) | Inr ss \<Rightarrow>
                       case py_iter ss of Inl e \<Rightarrow> (st2, Inl e) | Inr streams \<Rightarrow>
                       case scan_streams streams [] of Inl e \<Rightarrow> (st2, Inl e) | Inr tracks \<Rightarrow>
                       case py_setitem cache path
                              (JObj [(''sig'', JStr sig), (''tracks'', JArr tracks)]) of
                         Inl e \<Rightarrow> (st2, Inl e)
                       | Inr cache1 \<Rightarrow> (st2, Inr (JArr tracks, cache1))))))"

section \<open>Folder scan\<close>

text \<open>
  \<^verbatim>\<open>Path(folder).rglob("*")\<close>: the directories below the folder are visited in
  pre-order, the folder first, and every entry of a visited directory is yielded,
  files and directories alike. Paths are strings joined with a slash.
\<close>

definition joinpath :: "string \<Rightarrow> string \<Rightarrow> string" where
  "joinpath base name = base @ ''/'' @ name"

fun entry_name :: "entry \<Rightarrow> string" where
  "entry_name (File n) = n"
| "entry_name (Dir n es) = n"

definition children :: "string \<Rightarrow> entry list \<Rightarrow> string list" where
  "children base es = map (\<lambda>e. joinpath base (entry_name e)) es"

fun below :: "string \<Rightarrow> entry list \<Rightarrow> string list" where
  "below base [] = []"
| "below base (File n # es) = below base es"
| "below base (Dir n sub # es) =
     children (joinpath base n) sub @ below (joinpath base n) sub @ below base es"

definition rglob :: "world \<Rightarrow> string \<Rightarrow> string list" where
  "rglob w folder =
     (case scandir w folder of None \<Rightarrow> [] | Some es \<Rightarrow> children folder es @ below folder es)"

text \<open>\<^verbatim>\<open>Path.name\<close>: the final component.\<close>

definition path_name :: "string \<Rightarrow> string" where
  "path_name p = rev (takeWhile (\<lambda>c. c \<noteq> CHR ''/'') (rev p))"

text \<open>\<^verbatim>\<open>str.rfind\<close> of one character: the last index, counted from \<open>i\<close>.\<close>

fun rfind_from :: "nat \<Rightarrow> char \<Rightarrow> string \<Rightarrow> nat option" where
  "rfind_from i c [] = None"
| "rfind_from i c (x # xs) =
     (case rfind_from (Suc i) c xs of
        Some j \<Rightarrow> Some j
      | None \<Rightarrow> if x = c then Some i else None)"

text \<open>
  \<^verbatim>\<open>Path.suffix\<close>: with \<open>i\<close> the last dot of the name, the name from \<open>i\<close> on when
  \<open>0 < i < len(name) - 1\<close>, else the empty string.
\<close>

definition suffix :: "string \<Rightarrow> string" where
  "suffix p =
     (let name = path_name p in
      case rfind_from 0 CHR ''.'' name of
        None \<Rightarrow> []
      | Some i \<Rightarrow> if 0 < i \<and> Suc i < length name then drop i name else [])"

definition VIDEO_EXTENSIONS :: "string set" where
  "VIDEO_EXTENSIONS = {''.mkv'', ''.mp4'', ''.avi'', ''.mov'', ''.ts'', ''.m2ts''}"

text \<open>The loop collecting the video files of all folders.\<close>

fun collect_files :: "world \<Rightarrow> string list \<Rightarrow> string list \<Rightarrow> string list" where
  "collect_files w [] files = files"
| "collect_files w (folder # folders) files =
     collect_files w folders
       (files @ filter (\<lambda>f. lower (suffix f) \<in> VIDEO_EXTENSIONS) (rglob w folder))"

text \<open>The rows \<^verbatim>\<open>(str(file), *t)\<close> for the tracks of one file.\<close>

fun result_rows :: "string \<Rightarrow> json list \<Rightarrow> py_error + json list" where
  "result_rows file [] = Inr []"
| "result_rows file (t # ts) =
     (case py_iter t of Inl e \<Rightarrow> Inl e | Inr items \<Rightarrow>
      case result_rows file ts of Inl e \<Rightarrow> Inl e | Inr rows \<Rightarrow>
      Inr (JArr (JStr file # items) # rows))"

text \<open>
  The loop \<^verbatim>\<open>for i, file in enumerate(files, 1)\<close>: the cache and the results
  are threaded through; an exception ends the loop.
\<close>

fun scan_files ::
  "world \<Rightarrow> nat \<Rightarrow> nat \<Rightarrow> string list \<Rightarrow> json \<Rightarrow> json list \<Rightarrow> state
     \<Rightarrow> state \<times> (py_error + json \<times> json list)" where
  "scan_files w tot i [] cache results st = (st, Inr (cache, results))"
| "scan_files w tot i (file # files) cache results st =
     (case scan_video w file cache st of
        (st1, Inl e) \<Rightarrow> (st1, Inl e)
      | (st1, Inr (tracks, cache1)) \<Rightarrow>
          (case py_iter tracks of Inl e \<Rightarrow> (st1, Inl e) | Inr ts \<Rightarrow>
           case result_rows file ts of Inl e \<Rightarrow> (st1, Inl e) | Inr rows \<Rightarrow>
           scan_files w tot (Suc i) files cache1 (results @ rows)
             (st1\<lparr>progress_calls := progress_calls st1 @ [(i, tot)]\<rparr>)))"

definition scan_folders ::
  "world \<Rightarrow> string list \<Rightarrow> state \<Rightarrow> state \<times> (py_error + json list)" where
  "scan_folders w folders st =
     (case load_cache w st of
        Inl e \<Rightarrow> (st, Inl e)
      | Inr cache \<Rightarrow>
          (let files = collect_files w folders [];
               tot = length files
           in case scan_files w tot 1 files cache [] st of
                (st1, Inl e) \<Rightarrow> (st1, Inl e)
              | (st1, Inr (cache1, results)) \<Rightarrow> (save_cache w cache1 st1, Inr results)))"

section \<open>Entries below a folder\<close>

text \<open>
  The specification's "recursively under a folder": an entry is located at a path
  below \<open>base\<close> when it is an entry of that directory, or is located below one of
  its subdirectories.
\<close>

inductive located :: "string \<Rightarrow> entry list \<Rightarrow> string \<Rightarrow> entry \<Rightarrow> bool" where
  here: "e \<in> set es \<Longrightarrow> located base es (joinpath base (entry_name e)) e"
| deeper: "Dir n sub \<in> set es \<Longrightarrow> located (joinpath base n) sub p e \<Longrightarrow> located base es p e"

code_pred located .

section \<open>An example environment\<close>

text \<open>
  A library folder with one Atmos file, a text file and a directory named like a
  video that holds one more video; a second folder whose first file has vanished by
  the time it is examined. The prober prints a stream document for the Atmos file,
  an empty document for the nested video and nothing parseable for anything else.
\<close>

definition atmos_doc :: json where
  "atmos_doc =
     JObj [(''streams'',
            JArr [JObj [(''codec_name'', JStr ''truehd''),
                        (''profile'', JStr ''Dolby TrueHD + Dolby Atmos''),
                        (''tags'', JObj [(''language'', JStr ''eng'')])],
                  JObj [(''codec_name'', JStr ''ac3'')]])]"

definition atmos_track :: json where
  "atmos_track =
     JArr [JStr ''Dolby Atmos'', JStr ''eng'', JStr ''truehd'', JStr ''dolby truehd + dolby atmos'']"

definition ex_entries :: "(string \<times> json) list" where
  "ex_entries =
     [(''lib/a.mkv'', JObj [(''sig'', JStr ''7_1.5''), (''tracks'', JArr [atmos_track])]),
      (''old/z.mkv'', JObj [(''sig'', JStr ''12_0.25''), (''tracks'', JArr [])]),
      (''lib/x.mkv/b.MP4'', JObj [(''sig'', JStr ''7_1.0''), (''tracks'', JArr [atmos_track])])]"

definition ex_cache :: json where
  "ex_cache = JObj ex_entries"

text \<open>The same cache once the entry of the nested video has been refreshed.\<close>

definition ex_entries_after :: "(string \<times> json) list" where
  "ex_entries_after =
     [(''lib/a.mkv'', JObj [(''sig'', JStr ''7_1.5''), (''tracks'', JArr [atmos_track])]),
      (''old/z.mkv'', JObj [(''sig'', JStr ''12_0.25''), (''tracks'', JArr [])]),
      (''lib/x.mkv/b.MP4'', JObj [(''sig'', JStr ''7_1.5''), (''tracks'', JArr [])])]"

definition ex_world :: world where
  "ex_world =
     \<lparr> os_stat = (\<lambda>p. if p = ''tmp/gone.mkv'' then None
                       else Some \<lparr>st_size = 7, st_mtime = ''1.5''\<rparr>),
       subprocess_run = (\<lambda>p. Some (if p = ''lib/a.mkv'' then ''A''
                                     else if p = ''lib/x.mkv/b.MP4'' then ''{}'' else [])),
       json_loads = (\<lambda>t. if t = ''A'' then Some atmos_doc
                          else if t = ''{}'' then Some (JObj [])
                          else if t = ''[]'' then Some (JArr [])
                          else if t = ''C'' then Some ex_cache
                          else if t = ''D'' then Some (JObj ex_entries_after)
                          else None),
       json_dumps = (\<lambda>v. if v = JObj [] then ''{}''
                          else if v = JArr [] then ''[]''
                          else if v = ex_cache then ''C''
                          else if v = JObj ex_entries_after then ''D''
                          else ''?''),
       scandir = (\<lambda>f. if f = ''lib''
                         then Some [File ''a.mkv'', File ''notes.txt'', Dir ''x.mkv'' [File ''b.MP4'']]
                       else if f = ''tmp'' then Some [File ''gone.mkv'', File ''later.mkv'']
                       else None) \<rparr>"

definition ex_state :: "string option \<Rightarrow> state" where
  "ex_state content =
     \<lparr>cache_file = content, stat_calls = [], probe_calls = [], progress_calls = []\<rparr>"

section \<open>The classifier\<close>

lemma str_in_iff: "str_in p s \<longleftrightarrow> (\<exists>a b. s = a @ p @ b)"
proof (induction s)
  case Nil
  then show ?case by auto
next
  case (Cons c cs)
  have "(\<exists>a b. c # cs = a @ p @ b) \<longleftrightarrow>
        (\<exists>b. c # cs = p @ b) \<or> (\<exists>a b. cs = a @ p @ b)"
  proof
    assume "\<exists>a b. c # cs = a @ p @ b"
    then obtain a b where ab: "c # cs = a @ p @ b" by blast
    show "(\<exists>b. c # cs = p @ b) \<or> (\<exists>a b. cs = a @ p @ b)"
    proof (cases a)
      case Nil
      with ab show ?thesis by auto
    next
      case (Cons x a')
      with ab have "cs = a' @ p @ b" by simp
      then show ?thesis by blast
    qed
  next
    assume "(\<exists>b. c # cs = p @ b) \<or> (\<exists>a b. cs = a @ p @ b)"
    then show "\<exists>a b. c # cs = a @ p @ b"
    proof
      assume "\<exists>b. c # cs = p @ b"
      then obtain b where "c # cs = [] @ p @ b" by auto
      then show ?thesis by blast
    next
      assume "\<exists>a b. cs = a @ p @ b"
      then obtain a b where "c # cs = (c # a) @ p @ b" by auto
      then show ?thesis by blast
    qed
  qed
  moreover have "(\<exists>b. c # cs = p @ b) \<longleftrightarrow> take (length p) (c # cs) = p"
    by (metis append_eq_conv_conj append_take_drop_id)
  ultimately show ?case using Cons.IH by simp
qed

lemma classify_table:
  "classify codec profile =
     (if str_in ''atmos'' profile then Some ''Dolby Atmos''
      else if (codec = ''eac3'' \<or> codec = ''e-ac-3'') \<and> str_in ''joc'' profile
        then Some ''Dolby Atmos''
      else if codec = ''dts'' \<and> str_in ''x'' profile then Some ''DTS:X''
      else None)"
  by (simp add: classify_def)

lemma scan_stream_strings:
  assumes "map_of kvs ''codec_name'' = Some (JStr codec)"
      and "map_of kvs ''profile'' = Some (JStr profile)"
      and "py_get (JObj kvs) ''tags'' (JObj []) = Inr tags"
      and "py_get tags ''language'' (JStr ''unknown'') = Inr lang"
  shows "scan_stream (JObj kvs) =
           Inr (case classify (lower codec) (lower profile) of
                  None \<Rightarrow> []
                | Some label \<Rightarrow>
                    [JArr [JStr label, lang, JStr (lower codec), JStr (lower profile)]])"
proof -
  have tags: "(case map_of kvs ''tags'' of None \<Rightarrow> JObj [] | Some v \<Rightarrow> v) = tags"
    using assms(3) by simp
  show ?thesis
    unfolding scan_stream_def
    by (simp add: assms(1,2,4) tags split: option.split)
qed

text \<open>
  C1. For a stream whose codec and profile are strings, the appended track is decided
  on the lowered strings in this order, the first match winning: the profile contains
  "atmos": Dolby Atmos; else the codec is "eac3" or "e-ac-3" and the profile contains
  "joc": Dolby Atmos; else the codec is "dts" and the profile contains "x": DTS:X;
  else no track is appended. The four examples of the specification follow.
\<close>

theorem C1_classifier_priority:
  "(map_of kvs ''codec_name'' = Some (JStr codec) \<longrightarrow>
    map_of kvs ''profile'' = Some (JStr profile) \<longrightarrow>
    py_get (JObj kvs) ''tags'' (JObj []) = Inr tags \<longrightarrow>
    py_get tags ''language'' (JStr ''unknown'') = Inr lang \<longrightarrow>
    scan_stream (JObj kvs) =
      Inr (if str_in ''atmos'' (lower profile)
             then [JArr [JStr ''Dolby Atmos'', lang, JStr (lower codec), JStr (lower profile)]]
           else if (lower codec = ''eac3'' \<or> lower codec = ''e-ac-3'') \<and>
                   str_in ''joc'' (lower profile)
             then [JArr [JStr ''Dolby Atmos'', lang, JStr (lower codec), JStr (lower profile)]]
           else if lower codec = ''dts'' \<and> str_in ''x'' (lower profile)
             then [JArr [JStr ''DTS:X'', lang, JStr (lower codec), JStr (lower profile)]]
           else []))
   \<and> classify (lower ''truehd'') (lower ''dolby truehd atmos'') = Some ''Dolby Atmos''
   \<and> classify (lower ''eac3'') (lower ''ddp joc'') = Some ''Dolby Atmos''
   \<and> classify (lower ''dts'') (lower ''dts-x'') = Some ''DTS:X''
   \<and> classify (lower ''aac'') (lower ''lc'') = None"
proof -
  have ex: "classify (lower ''truehd'') (lower ''dolby truehd atmos'') = Some ''Dolby Atmos''"
    "classify (lower ''eac3'') (lower ''ddp joc'') = Some ''Dolby Atmos''"
    "classify (lower ''dts'') (lower ''dts-x'') = Some ''DTS:X''"
    "classify (lower ''aac'') (lower ''lc'') = None"
    by (simp_all add: classify_def lower_def lower_char_def)
  show ?thesis
    using ex by (auto simp: scan_stream_strings classify_table simp del: py_get.simps)
qed

theorem C1_classifier_priority_witness:
  "scan_stream (JObj [(''codec_name'', JStr ''DTS''), (''profile'', JStr ''DTS-X'')]) =
     Inr [JArr [JStr ''DTS:X'', JStr ''unknown'', JStr ''dts'', JStr ''dts-x'']]
   \<and> scan_stream (JObj [(''codec_name'', JStr ''TrueHD''), (''profile'', JStr ''Dolby TrueHD Atmos''),
                          (''tags'', JObj [(''language'', JStr ''eng'')])]) =
     Inr [JArr [JStr ''Dolby Atmos'', JStr ''eng'', JStr ''truehd'', JStr ''dolby truehd atmos'']]"
proof -
  have l: "lower ''DTS'' = ''dts''" "lower ''DTS-X'' = ''dts-x''"
    "lower ''TrueHD'' = ''truehd''" "lower ''Dolby TrueHD Atmos'' = ''dolby truehd atmos''"
    by (simp_all add: lower_def lower_char_def)
  have a: "scan_stream (JObj [(''codec_name'', JStr ''DTS''), (''profile'', JStr ''DTS-X'')]) =
     Inr [JArr [JStr ''DTS:X'', JStr ''unknown'', JStr ''dts'', JStr ''dts-x'']]"
    using C1_classifier_priority
      [of "[(''codec_name'', JStr ''DTS''), (''profile'', JStr ''DTS-X'')]" "''DTS''" "''DTS-X''"
          "JObj []" "JStr ''unknown''"]
    by (simp add: l)
  have b: "scan_stream (JObj [(''codec_name'', JStr ''TrueHD''), (''profile'', JStr ''Dolby TrueHD Atmos''),
                          (''tags'', JObj [(''language'', JStr ''eng'')])]) =
     Inr [JArr [JStr ''Dolby Atmos'', JStr ''eng'', JStr ''truehd'', JStr ''dolby truehd atmos'']]"
    using C1_classifier_priority
      [of "[(''codec_name'', JStr ''TrueHD''), (''profile'', JStr ''Dolby TrueHD Atmos''),
            (''tags'', JObj [(''language'', JStr ''eng'')])]" "''TrueHD''" "''Dolby TrueHD Atmos''"
          "JObj [(''language'', JStr ''eng'')]" "JStr ''eng''"]
    by (simp add: l)
  show ?thesis using a b by simp
qed

section \<open>The per-file scan\<close>

lemma map_of_dict_store: "map_of (dict_store kvs k v) = (map_of kvs)(k \<mapsto> v)"
  by (induction kvs k v rule: dict_store.induct) (auto simp: fun_eq_iff)

lemma file_signature_fst:
  "fst (file_signature w path st) = st\<lparr>stat_calls := stat_calls st @ [path]\<rparr>"
  by (simp add: file_signature_def Let_def split: option.split)

lemma file_signature_snd:
  "snd (file_signature w path st) =
     (case os_stat w path of None \<Rightarrow> Inl OSError
      | Some r \<Rightarrow> Inr (str_nat (st_size r) @ ''_'' @ st_mtime r))"
  by (simp add: file_signature_def Let_def split: option.split)


lemma scan_video_effects:
  assumes "scan_video w path cache st = (st', r)"
  shows "cache_file st' = cache_file st"
    and "progress_calls st' = progress_calls st"
    and "stat_calls st' = stat_calls st @ [path]"
    and "probe_calls st' = probe_calls st \<or> probe_calls st' = probe_calls st @ [path]"
  using assms
  unfolding scan_video_def file_signature_def Let_def
  by (auto split: option.splits sum.splits if_splits prod.splits)


lemma scan_video_probe_fails:
  assumes "snd (file_signature w path st) = Inr sig"
      and "cache_hit cache path sig = Inr False"
      and "probe w path = None"
  shows "scan_video w path cache st =
           (st\<lparr>stat_calls := stat_calls st @ [path], probe_calls := probe_calls st @ [path]\<rparr>,
            Inr (JArr [], cache))"
  using assms
  unfolding scan_video_def file_signature_def Let_def
  by (auto split: option.splits sum.splits if_splits prod.splits)


lemma scan_video_stat_fails:
  assumes "os_stat w path = None"
  shows "scan_video w path cache st = (st\<lparr>stat_calls := stat_calls st @ [path]\<rparr>, Inl OSError)"
  using assms
  unfolding scan_video_def file_signature_def Let_def
  by (auto split: option.splits sum.splits if_splits prod.splits)

lemma scan_video_frame:
  assumes "scan_video w path (JObj kvs) st = (st', Inr (tracks, cache1))"
  shows "\<exists>kvs1. cache1 = JObj kvs1 \<and> (\<forall>k. k \<noteq> path \<longrightarrow> map_of kvs1 k = map_of kvs k)"
  using assms
  unfolding scan_video_def file_signature_def Let_def
  by (auto simp: map_of_dict_store split: option.splits sum.splits if_splits prod.splits)

section \<open>The loop over the files\<close>

lemma scan_files_Cons_cases:
  assumes "scan_files w tot i (file # files) cache results st = (st', r)"
  obtains (raised) st1 e where "scan_video w file cache st = (st1, Inl e)" "st' = st1" "r = Inl e"
  | (rows_raised) st1 tracks cache1 e where "scan_video w file cache st = (st1, Inr (tracks, cache1))"
      "st' = st1" "r = Inl e"
  | (continued) st1 tracks cache1 rows where "scan_video w file cache st = (st1, Inr (tracks, cache1))"
      "scan_files w tot (Suc i) files cache1 (results @ rows)
         (st1\<lparr>progress_calls := progress_calls st1 @ [(i, tot)]\<rparr>) = (st', r)"
  using assms
  by (auto split: prod.splits sum.splits)

lemma scan_files_effects:
  assumes "scan_files w tot i files cache results st = (st', r)"
  shows "\<exists>k\<le>length files.
           progress_calls st' = progress_calls st @ map (\<lambda>j. (j, tot)) [i..<i + k] \<and>
           cache_file st' = cache_file st \<and>
           (case r of
              Inr _ \<Rightarrow> k = length files \<and> stat_calls st' = stat_calls st @ files
            | Inl _ \<Rightarrow> k < length files \<and> stat_calls st' = stat_calls st @ take (Suc k) files)"
  using assms
proof (induction files arbitrary: i cache results st)
  case Nil
  then show ?case by auto
next
  case (Cons f0 fs)
  from Cons.prems show ?case
  proof (cases rule: scan_files_Cons_cases)
    case (raised st1 e)
    with scan_video_effects[OF raised(1)] show ?thesis
      by (intro exI[of _ 0]) simp
  next
    case (rows_raised st1 tracks cache1 e)
    with scan_video_effects[OF rows_raised(1)] show ?thesis
      by (intro exI[of _ 0]) simp
  next
    case (continued st1 tracks cache1 rows)
    note sv = scan_video_effects[OF continued(1)]
    let ?st2 = "st1\<lparr>progress_calls := progress_calls st1 @ [(i, tot)]\<rparr>"
    from Cons.IH[OF continued(2)] obtain k where k: "k \<le> length fs"
      "progress_calls st' = progress_calls ?st2 @ map (\<lambda>j. (j, tot)) [Suc i..<Suc i + k]"
      "cache_file st' = cache_file ?st2"
      "(case r of
              Inr _ \<Rightarrow> k = length fs \<and> stat_calls st' = stat_calls ?st2 @ fs
            | Inl _ \<Rightarrow> k < length fs \<and> stat_calls st' = stat_calls ?st2 @ take (Suc k) fs)"
      by blast
    have "[i..<i + Suc k] = i # [Suc i..<Suc i + k]"
      by (simp add: upt_rec)
    with k sv show ?thesis
      by (intro exI[of _ "Suc k"]) (auto split: sum.splits)
  qed
qed

lemma scan_files_frame:
  assumes "scan_files w tot i files (JObj kvs) results st = (st', Inr (cache1, res))"
  shows "\<exists>kvs1. cache1 = JObj kvs1 \<and> (\<forall>k. k \<notin> set files \<longrightarrow> map_of kvs1 k = map_of kvs k)"
  using assms
proof (induction files arbitrary: i kvs results st)
  case Nil
  then show ?case by auto
next
  case (Cons f0 fs)
  from Cons.prems show ?case
  proof (cases rule: scan_files_Cons_cases)
    case (continued st1 tracks c1 rows)
    from scan_video_frame[OF continued(1)] obtain kvs1 where
      kvs1: "c1 = JObj kvs1" "\<forall>k. k \<noteq> f0 \<longrightarrow> map_of kvs1 k = map_of kvs k" by blast
    from Cons.IH[OF continued(2)[unfolded kvs1(1)]] obtain kvs2 where
      "cache1 = JObj kvs2" "\<forall>k. k \<notin> set fs \<longrightarrow> map_of kvs2 k = map_of kvs1 k" by blast
    with kvs1 show ?thesis by auto
  qed auto
qed

lemma scan_files_stat_fails:
  assumes "f \<in> set files" and "os_stat w f = None"
  shows "\<exists>e. snd (scan_files w tot i files cache results st) = Inl e"
  using assms
proof (induction files arbitrary: i cache results st)
  case Nil
  then show ?case by simp
next
  case (Cons f0 fs)
  obtain st' r where eq: "scan_files w tot i (f0 # fs) cache results st = (st', r)"
    by (cases "scan_files w tot i (f0 # fs) cache results st")
  from eq show ?case
  proof (cases rule: scan_files_Cons_cases)
    case (raised st1 e)
    with eq show ?thesis by simp
  next
    case (rows_raised st1 tracks cache1 e)
    with eq show ?thesis by simp
  next
    case (continued st1 tracks cache1 rows)
    have "f \<noteq> f0"
      using continued(1) scan_video_stat_fails[of w f cache st] Cons.prems(2) by auto
    with Cons.prems have "f \<in> set fs" by simp
    from Cons.IH[OF this Cons.prems(2)] continued(2) eq show ?thesis
      by (metis snd_conv)
  qed
qed



lemma scan_files_abort_at:
  assumes "os_stat w f = None"
      and "scan_files w tot i (pre @ f # post) cache results st = (st', r)"
  shows "\<exists>k\<le>length pre. \<exists>e. r = Inl e \<and>
           stat_calls st' = stat_calls st @ take (Suc k) (pre @ f # post) \<and>
           progress_calls st' = progress_calls st @ map (\<lambda>j. (j, tot)) [i..<i + k] \<and>
           cache_file st' = cache_file st"
  using assms(2)
proof (induction pre arbitrary: i cache results st)
  case Nil
  from Nil have "st' = st\<lparr>stat_calls := stat_calls st @ [f]\<rparr>" "r = Inl OSError"
    by (simp_all add: scan_video_stat_fails[OF assms(1)])
  then show ?case by simp
next
  case (Cons f0 pre)
  from Cons.prems have run: "scan_files w tot i (f0 # (pre @ f # post)) cache results st = (st', r)"
    by simp
  from run show ?case
  proof (cases rule: scan_files_Cons_cases)
    case (raised st1 e)
    with scan_video_effects[OF raised(1)] show ?thesis
      by (intro exI[of _ 0]) simp
  next
    case (rows_raised st1 tracks cache1 e)
    with scan_video_effects[OF rows_raised(1)] show ?thesis
      by (intro exI[of _ 0]) simp
  next
    case (continued st1 tracks cache1 rows)
    note sv = scan_video_effects[OF continued(1)]
    let ?st2 = "st1\<lparr>progress_calls := progress_calls st1 @ [(i, tot)]\<rparr>"
    from Cons.IH[OF continued(2)] obtain k e where k: "k \<le> length pre" "r = Inl e"
      "stat_calls st' = stat_calls ?st2 @ take (Suc k) (pre @ f # post)"
      "progress_calls st' = progress_calls ?st2 @ map (\<lambda>j. (j, tot)) [Suc i..<Suc i + k]"
      "cache_file st' = cache_file ?st2"
      by blast
    have "[i..<i + Suc k] = i # [Suc i..<Suc i + k]"
      by (simp add: upt_rec)
    with k sv show ?thesis
      by (intro exI[of _ "Suc k"]) simp
  qed
qed

section \<open>The folder walker\<close>

lemma located_mono:
  "located base es p e \<Longrightarrow> set es \<subseteq> set es' \<Longrightarrow> located base es' p e"
proof (induction arbitrary: es' rule: located.induct)
  case (here e es base)
  then show ?case by (auto intro: located.here)
next
  case (deeper n sub es base p e)
  then show ?case by (auto intro: located.deeper)
qed

lemma children_located:
  "p \<in> set (children base es) \<Longrightarrow> \<exists>e. located base es p e"
  by (auto simp: children_def intro: located.here)

lemma below_located:
  "p \<in> set (below base es) \<Longrightarrow> \<exists>e. located base es p e"
proof (induction base es arbitrary: p rule: below.induct)
  case (1 base)
  then show ?case by simp
next
  case (2 base n es)
  then obtain e where "located base es p e" by auto
  then have "located base (File n # es) p e"
    by (rule located_mono) auto
  then show ?case ..
next
  case (3 base n sub es)
  from "3.prems" consider
      "p \<in> set (children (joinpath base n) sub)"
    | "p \<in> set (below (joinpath base n) sub)"
    | "p \<in> set (below base es)"
    by auto
  then show ?case
  proof cases
    case 1
    then obtain e where "located (joinpath base n) sub p e"
      using children_located by blast
    then have "located base (Dir n sub # es) p e"
      using located.deeper[of n sub "Dir n sub # es" base p e] by simp
    then show ?thesis ..
  next
    case 2
    then obtain e where "located (joinpath base n) sub p e"
      using "3.IH"(1) by blast
    then have "located base (Dir n sub # es) p e"
      using located.deeper[of n sub "Dir n sub # es" base p e] by simp
    then show ?thesis ..
  next
    case 3
    then obtain e where "located base es p e"
      using "3.IH"(2) by blast
    then have "located base (Dir n sub # es) p e"
      by (rule located_mono) auto
    then show ?thesis ..
  qed
qed

lemma below_Dir_subset:
  "Dir n sub \<in> set es \<Longrightarrow>
     set (children (joinpath base n) sub) \<union> set (below (joinpath base n) sub)
       \<subseteq> set (below base es)"
  by (induction base es rule: below.induct) auto

lemma located_listed:
  "located base es p e \<Longrightarrow> p \<in> set (children base es @ below base es)"
proof (induction rule: located.induct)
  case (here e es base)
  then show ?case by (auto simp: children_def)
next
  case (deeper n sub es base p e)
  with below_Dir_subset[OF deeper.hyps(1), of base] show ?case by auto
qed

lemma set_rglob:
  "set (rglob w folder) =
     {p. \<exists>es e. scandir w folder = Some es \<and> located folder es p e}"
proof (cases "scandir w folder")
  case None
  then show ?thesis by (simp add: rglob_def)
next
  case (Some es)
  have "\<And>p. p \<in> set (children folder es @ below folder es) \<longleftrightarrow> (\<exists>e. located folder es p e)"
    using children_located below_located located_listed by (metis Un_iff set_append)
  with Some show ?thesis
    by (simp add: rglob_def set_eq_iff)
qed

lemma collect_files_acc:
  "collect_files w folders files =
     files @ concat (map (\<lambda>folder. filter (\<lambda>f. lower (suffix f) \<in> VIDEO_EXTENSIONS)
                                       (rglob w folder)) folders)"
  by (induction folders arbitrary: files) auto

lemma collect_files_append:
  "collect_files w (folders @ folders') [] =
     collect_files w folders [] @ collect_files w folders' []"
  by (simp add: collect_files_acc)

lemma set_collect_files:
  "set (collect_files w folders []) =
     {p. \<exists>folder\<in>set folders. \<exists>es e. scandir w folder = Some es \<and> located folder es p e \<and>
           lower (suffix p) \<in> VIDEO_EXTENSIONS}"
  by (auto simp: collect_files_acc set_rglob)

section \<open>The example, evaluated\<close>

lemmas ex_defs = ex_world_def ex_state_def ex_cache_def ex_entries_def ex_entries_after_def
  atmos_doc_def atmos_track_def

lemmas eval_defs =
  scan_folders_def scan_video_def file_signature_def cache_hit_def probe_def load_cache_def
  save_cache_def rglob_def children_def joinpath_def suffix_def path_name_def
  VIDEO_EXTENSIONS_def lower_def lower_char_def scan_stream_def classify_def
  digit_char_def str_nat.simps Let_def

lemma ex_collect_lib:
  "collect_files ex_world [''lib''] [] = [''lib/a.mkv'', ''lib/x.mkv'', ''lib/x.mkv/b.MP4'']"
  by (simp add: ex_defs eval_defs)

lemma ex_collect_lib_tmp:
  "collect_files ex_world [''lib'', ''tmp''] [] =
     [''lib/a.mkv'', ''lib/x.mkv'', ''lib/x.mkv/b.MP4''] @ ''tmp/gone.mkv'' # [''tmp/later.mkv'']"
  by (simp add: ex_defs eval_defs)

lemma ex_scan_lib:
  "scan_folders ex_world [''lib''] (ex_state None) =
     (\<lparr>cache_file = Some ''?'',
        stat_calls = [''lib/a.mkv'', ''lib/x.mkv'', ''lib/x.mkv/b.MP4''],
        probe_calls = [''lib/a.mkv'', ''lib/x.mkv'', ''lib/x.mkv/b.MP4''],
        progress_calls = [(1, 3), (2, 3), (3, 3)]\<rparr>,
      Inr [JArr [JStr ''lib/a.mkv'', JStr ''Dolby Atmos'', JStr ''eng'', JStr ''truehd'',
                 JStr ''dolby truehd + dolby atmos'']])"
  by (simp add: ex_defs eval_defs)

lemma ex_scan_lib_cached:
  "scan_folders ex_world [''lib''] (ex_state (Some ''C'')) =
     (\<lparr>cache_file = Some ''D'',
        stat_calls = [''lib/a.mkv'', ''lib/x.mkv'', ''lib/x.mkv/b.MP4''],
        probe_calls = [''lib/x.mkv'', ''lib/x.mkv/b.MP4''],
        progress_calls = [(1, 3), (2, 3), (3, 3)]\<rparr>,
      Inr [JArr [JStr ''lib/a.mkv'', JStr ''Dolby Atmos'', JStr ''eng'', JStr ''truehd'',
                 JStr ''dolby truehd + dolby atmos'']])"
  by (simp add: ex_defs eval_defs)

section \<open>The whole scan\<close>

lemma scan_folders_effects:
  "\<exists>k\<le>length (collect_files w folders []).
     progress_calls (fst (scan_folders w folders st)) =
       progress_calls st @ map (\<lambda>j. (j, length (collect_files w folders []))) [1..<Suc k] \<and>
     (case snd (scan_folders w folders st) of
        Inr _ \<Rightarrow> k = length (collect_files w folders []) \<and>
                 stat_calls (fst (scan_folders w folders st)) =
                   stat_calls st @ collect_files w folders []
      | Inl _ \<Rightarrow> cache_file (fst (scan_folders w folders st)) = cache_file st)"
proof (cases "load_cache w st")
  case (Inl e)
  then show ?thesis
    by (intro exI[of _ 0]) (simp add: scan_folders_def)
next
  case (Inr cache)
  let ?files = "collect_files w folders []"
  obtain st' r where run: "scan_files w (length ?files) 1 ?files cache [] st = (st', r)"
    by (cases "scan_files w (length ?files) 1 ?files cache [] st")
  from scan_files_effects[OF run] obtain k where k: "k \<le> length ?files"
    "progress_calls st' = progress_calls st @ map (\<lambda>j. (j, length ?files)) [1..<1 + k]"
    "cache_file st' = cache_file st"
    "(case r of
        Inr _ \<Rightarrow> k = length ?files \<and> stat_calls st' = stat_calls st @ ?files
      | Inl _ \<Rightarrow> k < length ?files \<and> stat_calls st' = stat_calls st @ take (Suc k) ?files)"
    by blast
  show ?thesis
  proof (cases r)
    case (Inl e)
    with Inr run have "scan_folders w folders st = (st', Inl e)"
      by (simp add: scan_folders_def Let_def)
    with k show ?thesis
      by (intro exI[of _ k]) simp
  next
    case r: (Inr x)
    obtain cache1 results where x: "x = (cache1, results)" by (cases x)
    with r Inr run have "scan_folders w folders st = (save_cache w cache1 st', Inr results)"
      by (simp add: scan_folders_def Let_def)
    with k r show ?thesis
      by (intro exI[of _ k]) (simp add: save_cache_def)
  qed
qed

lemma progress_seq_facts:
  fixes N k :: nat
  defines "new \<equiv> map (\<lambda>j. (j, N)) [1..<Suc k]"
  shows "\<forall>c\<in>set new. snd c = N"
    and "sorted (map fst new)"
    and "length new = k"
    and "k = N \<Longrightarrow> length (filter (\<lambda>c. fst c = N) new) = (if N = 0 then 0 else 1)"
proof -
  show "\<forall>c\<in>set new. snd c = N" by (auto simp: new_def)
  have m: "map fst new = [1..<Suc k]"
    by (simp add: new_def comp_def)
  show "sorted (map fst new)" unfolding m by (rule sorted_upt)
  show "length new = k" by (simp add: new_def)
  assume kN: "k = N"
  have "filter (\<lambda>c. fst c = N) new = map (\<lambda>j. (j, N)) (filter (\<lambda>j. j = N) [1..<Suc N])"
    by (simp add: new_def kN filter_map comp_def)
  moreover have "filter (\<lambda>j. j = N) [1..<Suc N] = (if N = 0 then [] else [N])"
  proof (cases "N = 0")
    case True
    then show ?thesis by simp
  next
    case False
    then have "[1..<Suc N] = [1..<N] @ [N]" by simp
    moreover have "filter (\<lambda>j. j = N) [1..<N] = []" by (auto simp: filter_empty_conv)
    ultimately show ?thesis using False by simp
  qed
  ultimately show "length (filter (\<lambda>c. fst c = N) new) = (if N = 0 then 0 else 1)"
    by simp
qed

lemma scan_files_append:
  "scan_files w tot i (xs @ ys) cache results st =
     (case scan_files w tot i xs cache results st of
        (st1, Inl e) \<Rightarrow> (st1, Inl e)
      | (st1, Inr (cache1, results1)) \<Rightarrow>
          scan_files w tot (i + length xs) ys cache1 results1 st1)"
proof (induction xs arbitrary: i cache results st)
  case Nil
  then show ?case by simp
next
  case (Cons x xs)
  show ?case
    by (simp add: Cons.IH split: prod.splits sum.splits)
qed

lemma scan_folders_raise_cases:
  assumes "snd (scan_folders w folders st) = Inl e"
  shows "(load_cache w st = Inl e \<and> fst (scan_folders w folders st) = st) \<or>
         (\<exists>k<length (collect_files w folders []).
            progress_calls (fst (scan_folders w folders st)) =
              progress_calls st @ map (\<lambda>j. (j, length (collect_files w folders []))) [1..<Suc k] \<and>
            stat_calls (fst (scan_folders w folders st)) =
              stat_calls st @ take (Suc k) (collect_files w folders []))"
proof (cases "load_cache w st")
  case (Inl e')
  with assms show ?thesis by (simp add: scan_folders_def)
next
  case (Inr cache)
  let ?files = "collect_files w folders []"
  obtain st' r where run: "scan_files w (length ?files) 1 ?files cache [] st = (st', r)"
    by (cases "scan_files w (length ?files) 1 ?files cache [] st")
  from assms Inr run have r: "r = Inl e" and st': "fst (scan_folders w folders st) = st'"
    by (auto simp: scan_folders_def Let_def split: sum.splits prod.splits)
  from scan_files_effects[OF run] r obtain k where k: "k < length ?files"
    "progress_calls st' = progress_calls st @ map (\<lambda>j. (j, length ?files)) [1..<1 + k]"
    "stat_calls st' = stat_calls st @ take (Suc k) ?files"
    by auto
  then show ?thesis unfolding st' by auto
qed

lemma ex_scan_lib_of_five:
  "scan_files ex_world 5 1 [''lib/a.mkv'', ''lib/x.mkv'', ''lib/x.mkv/b.MP4''] (JObj []) []
     (ex_state None) =
     (\<lparr>cache_file = None,
        stat_calls = [''lib/a.mkv'', ''lib/x.mkv'', ''lib/x.mkv/b.MP4''],
        probe_calls = [''lib/a.mkv'', ''lib/x.mkv'', ''lib/x.mkv/b.MP4''],
        progress_calls = [(1, 5), (2, 5), (3, 5)]\<rparr>,
      Inr (JObj [(''lib/a.mkv'', JObj [(''sig'', JStr ''7_1.5''), (''tracks'', JArr [atmos_track])]),
                 (''lib/x.mkv/b.MP4'', JObj [(''sig'', JStr ''7_1.5''), (''tracks'', JArr [])])],
           [JArr [JStr ''lib/a.mkv'', JStr ''Dolby Atmos'', JStr ''eng'', JStr ''truehd'',
                  JStr ''dolby truehd + dolby atmos'']]))"
  by (simp add: ex_defs eval_defs)

section \<open>The claims about caching, failures and enumeration\<close>

subsection \<open>Claim C2\<close>




subsection \<open>Claim C3\<close>

text \<open>
  C3, as the code has it. When the probe raises inside the guarded block (the prober
  cannot be started, or its output does not parse), the per-file scan returns no tracks
  and leaves the cache unchanged: no entry is written, and a later scan of the same
  file with the same signature invokes the prober again.
\<close>

theorem C3_probe_failure_not_cached:
  "snd (file_signature w path st) = Inr sig \<longrightarrow>
   cache_hit cache path sig = Inr False \<longrightarrow>
   probe w path = None \<longrightarrow>
     scan_video w path cache st =
       (st\<lparr>stat_calls := stat_calls st @ [path], probe_calls := probe_calls st @ [path]\<rparr>,
        Inr (JArr [], cache))
     \<and> scan_video w path cache (fst (scan_video w path cache st)) =
       (st\<lparr>stat_calls := stat_calls st @ [path, path],
           probe_calls := probe_calls st @ [path, path]\<rparr>,
        Inr (JArr [], cache))"
proof (intro impI)
  assume a: "snd (file_signature w path st) = Inr sig" "cache_hit cache path sig = Inr False"
    "probe w path = None"
  let ?st1 = "st\<lparr>stat_calls := stat_calls st @ [path], probe_calls := probe_calls st @ [path]\<rparr>"
  have first: "scan_video w path cache st = (?st1, Inr (JArr [], cache))"
    by (rule scan_video_probe_fails[OF a])
  have "snd (file_signature w path ?st1) = Inr sig"
    using a(1) by (simp add: file_signature_snd)
  from scan_video_probe_fails[OF this a(2,3)]
  have "scan_video w path cache ?st1 =
       (st\<lparr>stat_calls := stat_calls st @ [path, path],
           probe_calls := probe_calls st @ [path, path]\<rparr>,
        Inr (JArr [], cache))"
    by simp
  with first show "scan_video w path cache st = (?st1, Inr (JArr [], cache))
     \<and> scan_video w path cache (fst (scan_video w path cache st)) =
       (st\<lparr>stat_calls := stat_calls st @ [path, path],
           probe_calls := probe_calls st @ [path, path]\<rparr>,
        Inr (JArr [], cache))"
    by simp
qed

text \<open>The directory entry of the example, whose probe output does not parse.\<close>

theorem C3_probe_failure_not_cached_witness:
  "snd (file_signature ex_world ''lib/x.mkv'' (ex_state None)) = Inr ''7_1.5''
   \<and> cache_hit (JObj []) ''lib/x.mkv'' ''7_1.5'' = Inr False
   \<and> probe ex_world ''lib/x.mkv'' = None
   \<and> scan_video ex_world ''lib/x.mkv'' (JObj []) (ex_state None) =
       (\<lparr>cache_file = None, stat_calls = [''lib/x.mkv''], probe_calls = [''lib/x.mkv''],
         progress_calls = []\<rparr>, Inr (JArr [], JObj []))
   \<and> scan_video ex_world ''lib/x.mkv'' (JObj [])
        (fst (scan_video ex_world ''lib/x.mkv'' (JObj []) (ex_state None))) =
       (\<lparr>cache_file = None, stat_calls = [''lib/x.mkv'', ''lib/x.mkv''],
         probe_calls = [''lib/x.mkv'', ''lib/x.mkv''], progress_calls = []\<rparr>,
        Inr (JArr [], JObj []))"
proof -
  have h: "snd (file_signature ex_world ''lib/x.mkv'' (ex_state None)) = Inr ''7_1.5''"
    "cache_hit (JObj []) ''lib/x.mkv'' ''7_1.5'' = Inr False"
    "probe ex_world ''lib/x.mkv'' = None"
    by (simp_all add: ex_defs file_signature_def cache_hit_def probe_def digit_char_def str_nat.simps)
  from h C3_probe_failure_not_cached[of ex_world "''lib/x.mkv''" "ex_state None" "''7_1.5''" "JObj []"]
  show ?thesis
    by (auto simp: ex_state_def)
qed

text \<open>
  C3 as stated fails: after a failed probe the cache holds no entry for the file.
\<close>

theorem C3_counterexample:
  "probe ex_world ''lib/x.mkv'' = None
   \<and> snd (file_signature ex_world ''lib/x.mkv'' (ex_state None)) = Inr ''7_1.5''
   \<and> scan_video ex_world ''lib/x.mkv'' (JObj []) (ex_state None)
     = (\<lparr>cache_file = None, stat_calls = [''lib/x.mkv''],
         probe_calls = [''lib/x.mkv''], progress_calls = []\<rparr>,
        Inr (JArr [], JObj []))
   \<and> py_contains ''lib/x.mkv'' (JObj []) = Inr False"
  by (simp add: ex_defs eval_defs)

subsection \<open>Claim C4\<close>

text \<open>
  C4, as the code has it. Loading the cache gives the empty mapping when the cache
  file is absent; when the file is present and parses, the parsed document is returned
  as it is, whatever its shape; when the file is present and does not parse, the
  parser's error is raised.
\<close>

theorem C4_load_cache_cases:
  "(cache_file st = None \<longrightarrow> load_cache w st = Inr (JObj []))
   \<and> (cache_file st = Some text \<longrightarrow> json_loads w text = Some v \<longrightarrow> load_cache w st = Inr v)
   \<and> (cache_file st = Some text \<longrightarrow> json_loads w text = None \<longrightarrow>
        load_cache w st = Inl JSONDecodeError)"
  by (simp add: load_cache_def)

text \<open>The three cases on the example environment.\<close>

theorem C4_load_cache_cases_witness:
  "load_cache ex_world (ex_state None) = Inr (JObj [])
   \<and> load_cache ex_world (ex_state (Some ''C'')) = Inr ex_cache
   \<and> load_cache ex_world (ex_state (Some ''garbage'')) = Inl JSONDecodeError"
proof -
  have "load_cache ex_world (ex_state None) = Inr (JObj [])"
    using C4_load_cache_cases[of "ex_state None" ex_world]
    by (simp add: ex_state_def)
  moreover have "load_cache ex_world (ex_state (Some ''C'')) = Inr ex_cache"
    using C4_load_cache_cases[of "ex_state (Some ''C'')" ex_world "''C''" ex_cache]
    by (simp add: ex_state_def ex_world_def)
  moreover have "load_cache ex_world (ex_state (Some ''garbage'')) = Inl JSONDecodeError"
    using C4_load_cache_cases[of "ex_state (Some ''garbage'')" ex_world "''garbage''"]
    by (simp add: ex_state_def ex_world_def)
  ultimately show ?thesis by simp
qed

text \<open>
  C4 as stated fails: an unparseable cache file makes the load raise, and a parseable
  document of another shape is returned, not the empty mapping.
\<close>

theorem C4_counterexample:
  "load_cache ex_world (ex_state (Some ''garbage'')) = Inl JSONDecodeError
   \<and> load_cache ex_world (ex_state (Some ''[]'')) = Inr (JArr [])
   \<and> load_cache ex_world (ex_state (Some ''C'')) = Inr ex_cache
   \<and> ex_cache \<noteq> JObj []"
  by (simp add: ex_defs eval_defs)

subsection \<open>Claim C5\<close>

text \<open>
  C5, as the code has it. When the signature of an enumerated file cannot be computed,
  no cache entry is written for it and the scan does not go on: it raises at that file
  or at an earlier one, returns no results, leaves the cache file as it was and
  examines no file after the failing one. When the files before the failing one all
  scan without error, exactly they have been examined and reported to the progress
  callback, the failing file has been examined, and the error raised is the
  file-access error.
\<close>

theorem C5_stat_failure_aborts:
  "(os_stat w f = None \<longrightarrow>
    collect_files w folders [] = pre @ f # post \<longrightarrow>
    load_cache w st = Inr cache \<longrightarrow>
      (\<exists>k\<le>length pre. \<exists>e.
         snd (scan_folders w folders st) = Inl e \<and>
         cache_file (fst (scan_folders w folders st)) = cache_file st \<and>
         stat_calls (fst (scan_folders w folders st)) = stat_calls st @ take (Suc k) (pre @ f # post) \<and>
         progress_calls (fst (scan_folders w folders st)) =
           progress_calls st @ map (\<lambda>j. (j, length (pre @ f # post))) [1..<Suc k]))
   \<and>
   (os_stat w f = None \<longrightarrow>
    collect_files w folders [] = pre @ f # post \<longrightarrow>
    load_cache w st = Inr cache \<longrightarrow>
    scan_files w (length (pre @ f # post)) 1 pre cache [] st = (st1, Inr (cache1, results1)) \<longrightarrow>
      scan_folders w folders st = (st1\<lparr>stat_calls := stat_calls st1 @ [f]\<rparr>, Inl OSError) \<and>
      cache_file st1 = cache_file st \<and>
      stat_calls st1 = stat_calls st @ pre \<and>
      probe_calls (fst (scan_folders w folders st)) = probe_calls st1 \<and>
      progress_calls st1 =
        progress_calls st @ map (\<lambda>j. (j, length (pre @ f # post))) [1..<Suc (length pre)])"
proof (rule conjI; intro impI)
  assume a: "os_stat w f = None" "collect_files w folders [] = pre @ f # post"
    "load_cache w st = Inr cache"
  let ?n = "length (pre @ f # post)"
  obtain st' r where run: "scan_files w ?n 1 (pre @ f # post) cache [] st = (st', r)"
    by (cases "scan_files w ?n 1 (pre @ f # post) cache [] st")
  from scan_files_abort_at[OF a(1) run] obtain k e where k: "k \<le> length pre" "r = Inl e"
    "stat_calls st' = stat_calls st @ take (Suc k) (pre @ f # post)"
    "progress_calls st' = progress_calls st @ map (\<lambda>j. (j, ?n)) [1..<1 + k]"
    "cache_file st' = cache_file st"
    by blast
  have "scan_folders w folders st = (st', Inl e)"
    using a(2,3) run k(2) by (simp add: scan_folders_def Let_def)
  with k show "\<exists>k\<le>length pre. \<exists>e.
        snd (scan_folders w folders st) = Inl e \<and>
        cache_file (fst (scan_folders w folders st)) = cache_file st \<and>
        stat_calls (fst (scan_folders w folders st)) = stat_calls st @ take (Suc k) (pre @ f # post) \<and>
        progress_calls (fst (scan_folders w folders st)) =
          progress_calls st @ map (\<lambda>j. (j, ?n)) [1..<Suc k]"
    by (intro exI[of _ k]) simp
next
  assume a: "os_stat w f = None" "collect_files w folders [] = pre @ f # post"
    "load_cache w st = Inr cache"
    "scan_files w (length (pre @ f # post)) 1 pre cache [] st = (st1, Inr (cache1, results1))"
  let ?n = "length (pre @ f # post)"
  have "scan_files w ?n 1 (pre @ f # post) cache [] st =
          scan_files w ?n (1 + length pre) (f # post) cache1 results1 st1"
    by (simp only: scan_files_append a(4) prod.case sum.case)
  also have "\<dots> = (st1\<lparr>stat_calls := stat_calls st1 @ [f]\<rparr>, Inl OSError)"
    by (simp add: scan_video_stat_fails[OF a(1)])
  finally have run: "scan_files w ?n 1 (pre @ f # post) cache [] st =
      (st1\<lparr>stat_calls := stat_calls st1 @ [f]\<rparr>, Inl OSError)" .
  have sf: "scan_folders w folders st = (st1\<lparr>stat_calls := stat_calls st1 @ [f]\<rparr>, Inl OSError)"
    using a(2,3) run by (simp add: scan_folders_def Let_def)
  from scan_files_effects[OF a(4)] have e: "cache_file st1 = cache_file st"
    "stat_calls st1 = stat_calls st @ pre"
    "progress_calls st1 = progress_calls st @ map (\<lambda>j. (j, ?n)) [1..<Suc (length pre)]"
    by auto
  show "scan_folders w folders st = (st1\<lparr>stat_calls := stat_calls st1 @ [f]\<rparr>, Inl OSError) \<and>
      cache_file st1 = cache_file st \<and>
      stat_calls st1 = stat_calls st @ pre \<and>
      probe_calls (fst (scan_folders w folders st)) = probe_calls st1 \<and>
      progress_calls st1 = progress_calls st @ map (\<lambda>j. (j, ?n)) [1..<Suc (length pre)]"
    using sf e by simp
qed

text \<open>Two folders, the second starting with a vanished file.\<close>

theorem C5_stat_failure_aborts_witness:
  "os_stat ex_world ''tmp/gone.mkv'' = None
   \<and> collect_files ex_world [''lib'', ''tmp''] [] =
       [''lib/a.mkv'', ''lib/x.mkv'', ''lib/x.mkv/b.MP4''] @ ''tmp/gone.mkv'' # [''tmp/later.mkv'']
   \<and> load_cache ex_world (ex_state None) = Inr (JObj [])
   \<and> scan_folders ex_world [''lib'', ''tmp''] (ex_state None) =
       (\<lparr>cache_file = None,
          stat_calls = [''lib/a.mkv'', ''lib/x.mkv'', ''lib/x.mkv/b.MP4'', ''tmp/gone.mkv''],
          probe_calls = [''lib/a.mkv'', ''lib/x.mkv'', ''lib/x.mkv/b.MP4''],
          progress_calls = [(1, 5), (2, 5), (3, 5)]\<rparr>,
        Inl OSError)"
proof -
  have h: "os_stat ex_world ''tmp/gone.mkv'' = None"
    "load_cache ex_world (ex_state None) = Inr (JObj [])"
    by (simp_all add: ex_defs load_cache_def)
  have five: "length ([''lib/a.mkv'', ''lib/x.mkv'', ''lib/x.mkv/b.MP4''] @
                ''tmp/gone.mkv'' # [''tmp/later.mkv'']) = 5"
    by simp
  note t = C5_stat_failure_aborts[THEN conjunct2, rule_format,
             OF h(1) ex_collect_lib_tmp h(2) ex_scan_lib_of_five[folded five]]
  from t[THEN conjunct1] h ex_collect_lib_tmp show ?thesis
    by (simp del: collect_files.simps)
qed

text \<open>
  C5 as stated fails: the scan stops at the vanished file, raises, and the file after
  it is never examined.
\<close>

theorem C5_counterexample:
  "collect_files ex_world [''lib'', ''tmp''] []
     = [''lib/a.mkv'', ''lib/x.mkv'', ''lib/x.mkv/b.MP4'', ''tmp/gone.mkv'', ''tmp/later.mkv'']
   \<and> os_stat ex_world ''tmp/gone.mkv'' = None
   \<and> scan_folders ex_world [''lib'', ''tmp''] (ex_state None)
     = (\<lparr>cache_file = None,
         stat_calls = [''lib/a.mkv'', ''lib/x.mkv'', ''lib/x.mkv/b.MP4'', ''tmp/gone.mkv''],
         probe_calls = [''lib/a.mkv'', ''lib/x.mkv'', ''lib/x.mkv/b.MP4''],
         progress_calls = [(1, 5), (2, 5), (3, 5)]\<rparr>,
        Inl OSError)"
  by (simp add: ex_defs eval_defs)

subsection \<open>Claim C6\<close>

text \<open>
  C6, as the code has it. For a scan over \<open>N\<close> enumerated files the progress callback
  is invoked once after each file that completes, with the arguments
  \<open>(1, N), (2, N), \<dots>\<close>: the second argument is always \<open>N\<close> and the first is the
  number of files completed so far. When the scan returns, every file has been
  examined, there have been \<open>N\<close> calls, and exactly one of them has first argument
  \<open>N\<close>, provided \<open>N > 0\<close>. When the scan raises, either the cache did not load and
  nothing was done, or \<open>k < N\<close> files completed and were reported and file \<open>k + 1\<close>
  was examined; the first argument never equals \<open>N\<close>. For \<open>N = 0\<close> there is no
  call, and the scan returns the empty result whenever the cache loads.
\<close>

theorem C6_progress_callback:
  "\<exists>k new. k \<le> length (collect_files w folders []) \<and>
     new = map (\<lambda>j. (j, length (collect_files w folders []))) [1..<Suc k] \<and>
     progress_calls (fst (scan_folders w folders st)) = progress_calls st @ new \<and>
     (\<forall>c\<in>set new. snd c = length (collect_files w folders [])) \<and>
     sorted (map fst new) \<and>
     (case snd (scan_folders w folders st) of
        Inr results \<Rightarrow>
          k = length (collect_files w folders []) \<and>
          stat_calls (fst (scan_folders w folders st)) = stat_calls st @ collect_files w folders [] \<and>
          length (filter (\<lambda>c. fst c = length (collect_files w folders [])) new) =
            (if length (collect_files w folders []) = 0 then 0 else 1)
      | Inl e \<Rightarrow>
          filter (\<lambda>c. fst c = length (collect_files w folders [])) new = [] \<and>
          ((load_cache w st = Inl e \<and> fst (scan_folders w folders st) = st) \<or>
           (k < length (collect_files w folders []) \<and>
            stat_calls (fst (scan_folders w folders st)) =
              stat_calls st @ take (Suc k) (collect_files w folders [])))) \<and>
     (length (collect_files w folders []) = 0 \<longrightarrow>
        new = [] \<and>
        (\<forall>cache. load_cache w st = Inr cache \<longrightarrow>
           scan_folders w folders st = (save_cache w cache st, Inr [])))"
proof -
  let ?N = "length (collect_files w folders [])"
  let ?R = "scan_folders w folders st"
  let ?seq = "\<lambda>k. map (\<lambda>j. (j, ?N)) [1..<Suc k]"
  have zero: "?N = 0 \<longrightarrow>
        (\<forall>cache. load_cache w st = Inr cache \<longrightarrow> ?R = (save_cache w cache st, Inr []))"
    by (simp add: scan_folders_def Let_def)
  have upto: "filter (\<lambda>c. fst c = ?N) (?seq k) = []" if "k < ?N" for k
    using that by (auto simp: filter_empty_conv)
  show ?thesis
  proof (cases "snd ?R")
    case (Inr results)
    from scan_folders_effects[of w folders st] Inr obtain k where k: "k \<le> ?N"
      "progress_calls (fst ?R) = progress_calls st @ ?seq k"
      "k = ?N" "stat_calls (fst ?R) = stat_calls st @ collect_files w folders []"
      by auto
    note f = progress_seq_facts[of ?N k]
    have z: "?N = 0 \<longrightarrow> ?seq k = []" using k(1) by auto
    show ?thesis
      apply (rule exI[of _ k], rule exI[of _ "?seq k"])
      using k f z zero Inr by (auto simp del: upt_Suc)
  next
    case (Inl e)
    from scan_folders_raise_cases[OF Inl] show ?thesis
    proof
      assume l: "load_cache w st = Inl e \<and> fst ?R = st"
      show ?thesis
        apply (rule exI[of _ 0], rule exI[of _ "[]"])
        using l Inl zero by (auto simp del: upt_Suc)
    next
      assume "\<exists>k<?N. progress_calls (fst ?R) = progress_calls st @ ?seq k \<and>
            stat_calls (fst ?R) = stat_calls st @ take (Suc k) (collect_files w folders [])"
      then obtain k where k: "k < ?N" "progress_calls (fst ?R) = progress_calls st @ ?seq k"
        "stat_calls (fst ?R) = stat_calls st @ take (Suc k) (collect_files w folders [])"
        by blast
      note f = progress_seq_facts[of ?N k]
      show ?thesis
        apply (rule exI[of _ k], rule exI[of _ "?seq k"])
        using k f(1,2) upto[OF k(1)] Inl zero by (auto simp del: upt_Suc)
    qed
  qed
qed

text \<open>The library folder of the example, and the empty folder list.\<close>

theorem C6_progress_callback_witness:
  "progress_calls (fst (scan_folders ex_world [''lib''] (ex_state None))) = [(1, 3), (2, 3), (3, 3)]
   \<and> length (collect_files ex_world [''lib''] []) = 3
   \<and> scan_folders ex_world [] (ex_state None) = (save_cache ex_world (JObj []) (ex_state None), Inr [])
   \<and> progress_calls (save_cache ex_world (JObj []) (ex_state None)) = []"
proof -
  let ?R = "scan_folders ex_world [''lib''] (ex_state None)"
  from C6_progress_callback[of ex_world "[''lib'']" "ex_state None"]
  obtain k new where a: "new = map (\<lambda>j. (j, length (collect_files ex_world [''lib''] []))) [1..<Suc k]"
    "progress_calls (fst ?R) = progress_calls (ex_state None) @ new"
    "(case snd ?R of
        Inr results \<Rightarrow>
          k = length (collect_files ex_world [''lib''] []) \<and>
          stat_calls (fst ?R) = stat_calls (ex_state None) @ collect_files ex_world [''lib''] [] \<and>
          length (filter (\<lambda>c. fst c = length (collect_files ex_world [''lib''] [])) new) =
            (if length (collect_files ex_world [''lib''] []) = 0 then 0 else 1)
      | Inl e \<Rightarrow>
          filter (\<lambda>c. fst c = length (collect_files ex_world [''lib''] [])) new = [] \<and>
          ((load_cache ex_world (ex_state None) = Inl e \<and> fst ?R = ex_state None) \<or>
           (k < length (collect_files ex_world [''lib''] []) \<and>
            stat_calls (fst ?R) =
              stat_calls (ex_state None) @ take (Suc k) (collect_files ex_world [''lib''] []))))"
    by blast
  have "k = 3" using a(3) by (simp add: ex_scan_lib ex_collect_lib del: collect_files.simps)
  with a(1,2) have p: "progress_calls (fst ?R) = [(1, 3), (2, 3), (3, 3)]"
    by (simp add: ex_collect_lib ex_state_def upt_rec del: collect_files.simps)
  have l: "load_cache ex_world (ex_state None) = Inr (JObj [])"
    by (simp add: load_cache_def ex_state_def)
  from C6_progress_callback[of ex_world "[]" "ex_state None"] l
  have "scan_folders ex_world [] (ex_state None) =
          (save_cache ex_world (JObj []) (ex_state None), Inr [])"
    by auto
  with p show ?thesis
    by (simp add: ex_collect_lib save_cache_def ex_state_def del: collect_files.simps)
qed

text \<open>
  C6 as stated fails where the scan raises: with five files enumerated the first
  argument stops at three, and with no file enumerated an unparseable cache file
  keeps the scan from completing.
\<close>

theorem C6_counterexample:
  "length (collect_files ex_world [''lib'', ''tmp''] []) = 5
   \<and> snd (scan_folders ex_world [''lib'', ''tmp''] (ex_state None)) = Inl OSError
   \<and> progress_calls (fst (scan_folders ex_world [''lib'', ''tmp''] (ex_state None))) =
       [(1, 5), (2, 5), (3, 5)]
   \<and> length (collect_files ex_world [] []) = 0
   \<and> scan_folders ex_world [] (ex_state (Some ''garbage'')) =
       (ex_state (Some ''garbage''), Inl JSONDecodeError)"
  by (simp add: ex_defs eval_defs)

subsection \<open>Claim C7\<close>

text \<open>
  C7. The enumeration holds exactly the paths of the entries located below one of the
  folders whose suffix, lowered, is one of .mkv, .mp4, .avi, .mov, .ts, .m2ts; the
  folders contribute one after the other, so a folder given twice contributes its
  files twice.
\<close>

theorem C7_folder_walker:
  "set (collect_files w folders []) =
     {p. \<exists>folder\<in>set folders. \<exists>es e. scandir w folder = Some es \<and> located folder es p e \<and>
           lower (suffix p) \<in> {''.mkv'', ''.mp4'', ''.avi'', ''.mov'', ''.ts'', ''.m2ts''}}
   \<and> collect_files w (folders @ folders') [] =
       collect_files w folders [] @ collect_files w folders' []
   \<and> collect_files w [folder, folder] [] =
       collect_files w [folder] [] @ collect_files w [folder] []"
proof -
  have "collect_files w [folder, folder] [] =
       collect_files w [folder] [] @ collect_files w [folder] []"
    using collect_files_append[of w "[folder]" "[folder]"] by simp
  then show ?thesis
    using set_collect_files[of w folders] collect_files_append[of w folders folders']
    by (simp add: VIDEO_EXTENSIONS_def)
qed

text \<open>The library folder of the example: the text file is left out.\<close>

theorem C7_folder_walker_witness:
  "collect_files ex_world [''lib''] [] = [''lib/a.mkv'', ''lib/x.mkv'', ''lib/x.mkv/b.MP4'']
   \<and> ''lib/x.mkv/b.MP4'' \<in> set (collect_files ex_world [''lib''] [])
   \<and> ''lib/notes.txt'' \<notin> set (collect_files ex_world [''lib''] [])
   \<and> collect_files ex_world [''lib'', ''lib''] [] =
       [''lib/a.mkv'', ''lib/x.mkv'', ''lib/x.mkv/b.MP4'',
        ''lib/a.mkv'', ''lib/x.mkv'', ''lib/x.mkv/b.MP4'']"
proof -
  note t = C7_folder_walker[of ex_world "[''lib'']" "[''lib'']" "''lib''"]
  let ?es = "[File ''a.mkv'', File ''notes.txt'', Dir ''x.mkv'' [File ''b.MP4'']]"
  have "located ''lib/x.mkv'' [File ''b.MP4''] ''lib/x.mkv/b.MP4'' (File ''b.MP4'')"
    using located.here[of "File ''b.MP4''" "[File ''b.MP4'']" "''lib/x.mkv''"]
    by (simp add: joinpath_def)
  then have loc: "located ''lib'' ?es ''lib/x.mkv/b.MP4'' (File ''b.MP4'')"
    using located.deeper[of "''x.mkv''" "[File ''b.MP4'']" ?es "''lib''" "''lib/x.mkv/b.MP4''" "File ''b.MP4''"]
    by (simp add: joinpath_def)
  have sc: "scandir ex_world ''lib'' = Some ?es" by (simp add: ex_world_def)
  have sf: "lower (suffix ''lib/x.mkv/b.MP4'') \<in> {''.mkv'', ''.mp4'', ''.avi'', ''.mov'', ''.ts'', ''.m2ts''}"
    by (simp add: eval_defs)
  have nf: "lower (suffix ''lib/notes.txt'') \<notin> {''.mkv'', ''.mp4'', ''.avi'', ''.mov'', ''.ts'', ''.m2ts''}"
    by (simp add: eval_defs)
  note eq = t[THEN conjunct1]
  have "''lib/x.mkv/b.MP4'' \<in> set (collect_files ex_world [''lib''] [])"
    unfolding eq
    by (intro CollectI bexI[where x = "''lib''"] exI[where x = ?es]
          exI[where x = "File ''b.MP4''"] conjI loc sc sf) simp
  moreover have "''lib/notes.txt'' \<notin> set (collect_files ex_world [''lib''] [])"
    unfolding eq using nf by blast
  moreover have "collect_files ex_world [''lib'', ''lib''] [] =
       [''lib/a.mkv'', ''lib/x.mkv'', ''lib/x.mkv/b.MP4'',
        ''lib/a.mkv'', ''lib/x.mkv'', ''lib/x.mkv/b.MP4'']"
    using t[THEN conjunct2, THEN conjunct2] by (simp add: ex_collect_lib del: collect_files.simps)
  ultimately show ?thesis by (simp add: ex_collect_lib del: collect_files.simps)
qed

subsection \<open>Claim C8\<close>

text \<open>
  C8. Saving a cache and loading it again gives the same document back, whenever the
  JSON codec of the standard library reproduces that document from its own output.
\<close>

theorem C8_cache_round_trip:
  "json_loads w (json_dumps w cache) = Some cache \<longrightarrow>
     load_cache w (save_cache w cache st) = Inr cache"
  by (simp add: load_cache_def save_cache_def)

text \<open>The example cache.\<close>

theorem C8_cache_round_trip_witness:
  "json_loads ex_world (json_dumps ex_world ex_cache) = Some ex_cache
   \<and> load_cache ex_world (save_cache ex_world ex_cache (ex_state None)) = Inr ex_cache"
proof -
  have h: "json_loads ex_world (json_dumps ex_world ex_cache) = Some ex_cache"
    by (simp add: ex_world_def ex_cache_def)
  with C8_cache_round_trip[of ex_world ex_cache "ex_state None"] show ?thesis by simp
qed

subsection \<open>Claim C9\<close>

text \<open>
  C9. When the loaded cache is a mapping and the scan returns, the saved document is a
  mapping that gives every key outside the enumerated files the value it had when
  loaded; when the scan raises, the cache file is left as it was.
\<close>

theorem C9_unscanned_entries_kept:
  "(load_cache w st = Inr (JObj kvs) \<longrightarrow>
    key \<notin> set (collect_files w folders []) \<longrightarrow>
    scan_folders w folders st = (st', Inr results) \<longrightarrow>
      (\<exists>kvs1. cache_file st' = Some (json_dumps w (JObj kvs1)) \<and>
              map_of kvs1 key = map_of kvs key))
   \<and> (scan_folders w folders st = (st', Inl e) \<longrightarrow> cache_file st' = cache_file st)"
proof (intro conjI impI)
  assume a: "load_cache w st = Inr (JObj kvs)" "key \<notin> set (collect_files w folders [])"
    "scan_folders w folders st = (st', Inr results)"
  let ?files = "collect_files w folders []"
  obtain st1 r where run: "scan_files w (length ?files) 1 ?files (JObj kvs) [] st = (st1, r)"
    by (cases "scan_files w (length ?files) 1 ?files (JObj kvs) [] st")
  from a(1,3) run obtain cache1 where r: "r = Inr (cache1, results)"
    and st': "st' = save_cache w cache1 st1"
    by (auto simp: scan_folders_def Let_def split: sum.splits)
  from scan_files_frame[OF run[unfolded r]] a(2) obtain kvs1 where
    "cache1 = JObj kvs1" "map_of kvs1 key = map_of kvs key" by blast
  with st' show "\<exists>kvs1. cache_file st' = Some (json_dumps w (JObj kvs1)) \<and>
              map_of kvs1 key = map_of kvs key"
    by (auto simp: save_cache_def)
next
  assume "scan_folders w folders st = (st', Inl e)"
  with scan_folders_effects[of w folders st] show "cache_file st' = cache_file st"
    by auto
qed

text \<open>The entry of a file outside the scanned folder survives the scan.\<close>

theorem C9_unscanned_entries_kept_witness:
  "load_cache ex_world (ex_state (Some ''C'')) = Inr (JObj ex_entries)
   \<and> ''old/z.mkv'' \<notin> set (collect_files ex_world [''lib''] [])
   \<and> cache_file (fst (scan_folders ex_world [''lib''] (ex_state (Some ''C'')))) = Some ''D''
   \<and> json_loads ex_world ''D'' = Some (JObj ex_entries_after)
   \<and> map_of ex_entries_after ''old/z.mkv'' = map_of ex_entries ''old/z.mkv''
   \<and> map_of ex_entries ''old/z.mkv'' = Some (JObj [(''sig'', JStr ''12_0.25''), (''tracks'', JArr [])])"
proof -
  have h: "load_cache ex_world (ex_state (Some ''C'')) = Inr (JObj ex_entries)"
    "''old/z.mkv'' \<notin> set (collect_files ex_world [''lib''] [])"
    by (simp add: load_cache_def ex_world_def ex_state_def ex_cache_def)
       (simp add: ex_collect_lib del: collect_files.simps)
  from C9_unscanned_entries_kept[THEN conjunct1, rule_format, OF h ex_scan_lib_cached]
  have "\<exists>kvs1. Some ''D'' = Some (json_dumps ex_world (JObj kvs1)) \<and>
           map_of kvs1 ''old/z.mkv'' = map_of ex_entries ''old/z.mkv''"
    by simp
  with h ex_scan_lib_cached show ?thesis
    by (simp add: ex_world_def ex_entries_def ex_entries_after_def del: collect_files.simps)
qed

subsection \<open>Claim C10\<close>



end
